theory Spec2Isabelle
  imports Main
begin

section \<open>Strings\<close>

text \<open>
  A Go string is a sequence of bytes, here a \<open>string\<close> (a list of 8-bit characters);
  \<open>len\<close> is \<open>length\<close>. The functions of package \<open>strings\<close> that the program calls
  are written out on bytes, as they work on ASCII text: the letters are \<open>A\<close> to \<open>Z\<close>
  and \<open>a\<close> to \<open>z\<close>, the spaces are the six ASCII ones, and a byte of 128 or more is
  neither and is left as it is. Go's \<open>ToLower\<close>, \<open>TrimSpace\<close> and \<open>Fields\<close> also
  decode UTF-8 and know the letters and spaces of Unicode; the model stands for them on
  request, status and header lines made of ASCII bytes.
\<close>

definition LF :: char where
  "LF = CHR 0x0A"

definition CR :: char where
  "CR = CHR 0x0D"

definition lowerByte :: "char \<Rightarrow> char" where
  "lowerByte c =
     (let n = (of_char c :: nat) in if 65 \<le> n \<and> n \<le> 90 then char_of (n + 32) else c)"

definition ToLower :: "string \<Rightarrow> string" where
  "ToLower s = map lowerByte s"

definition HasPrefix :: "string \<Rightarrow> string \<Rightarrow> bool" where
  "HasPrefix s prefix \<longleftrightarrow> take (length prefix) s = prefix"

text \<open>\<open>TrimRight s cutset\<close> removes every trailing byte of \<open>s\<close> that is in \<open>cutset\<close>.\<close>

definition TrimRight :: "string \<Rightarrow> string \<Rightarrow> string" where
  "TrimRight s cutset = rev (dropWhile (\<lambda>c. c \<in> set cutset) (rev s))"

text \<open>White space: tab, line feed, vertical tab, form feed, carriage return, space.\<close>

definition isSpace :: "char \<Rightarrow> bool" where
  "isSpace c \<longleftrightarrow> (of_char c :: nat) \<in> {9, 10, 11, 12, 13, 32}"

definition TrimSpace :: "string \<Rightarrow> string" where
  "TrimSpace s = rev (dropWhile isSpace (rev (dropWhile isSpace s)))"

text \<open>
  \<open>Split s sep\<close> for a separator of one byte: the pieces between the separators, at
  least one piece. \<open>SplitN2 s sep\<close> is \<open>strings.SplitN(s, sep, 2)\<close>: the text before
  the first separator and the text after it, or \<open>s\<close> alone when it has no separator.
\<close>

fun Split :: "string \<Rightarrow> char \<Rightarrow> string list" where
  "Split [] sep = [[]]"
| "Split (c # cs) sep =
     (if c = sep then [] # Split cs sep
      else (c # hd (Split cs sep)) # tl (Split cs sep))"

definition SplitN2 :: "string \<Rightarrow> char \<Rightarrow> string list" where
  "SplitN2 s sep =
     (if sep \<in> set s then [takeWhile (\<lambda>c. c \<noteq> sep) s, tl (dropWhile (\<lambda>c. c \<noteq> sep) s)]
      else [s])"

text \<open>\<open>Fields\<close> splits around runs of white space; \<open>cur\<close> is the field being read.\<close>

fun fieldsFrom :: "string \<Rightarrow> string \<Rightarrow> string list" where
  "fieldsFrom cur [] = (if cur = [] then [] else [cur])"
| "fieldsFrom cur (c # cs) =
     (if isSpace c then (if cur = [] then fieldsFrom [] cs else cur # fieldsFrom [] cs)
      else fieldsFrom (cur @ [c]) cs)"

definition Fields :: "string \<Rightarrow> string list" where
  "Fields s = fieldsFrom [] s"

section \<open>Numbers\<close>

text \<open>
  \<open>strconv.ParseInt(s, base, 64)\<close> for a base of 10 or 16: an optional sign, then at
  least one digit of the base; no prefix and no underscore (they belong to base 0). The
  digits are read by \<open>ParseUint\<close> into an unsigned 64-bit number, whose overflow is a
  range error; the signed result has to fit 64 bits. \<open>strconv.Atoi\<close> gives the same
  value as \<open>ParseInt\<close> in base 10 (the program runs with a 64-bit \<open>int\<close>).
\<close>

datatype numError = ErrSyntax | ErrRange

definition digitVal :: "char \<Rightarrow> int option" where
  "digitVal c =
     (let n = (of_char c :: int); l = (of_char (lowerByte c) :: int) in
      if 48 \<le> n \<and> n \<le> 57 then Some (n - 48)
      else if 97 \<le> l \<and> l \<le> 122 then Some (l - 97 + 10)
      else None)"

definition maxUint64 :: int where
  "maxUint64 = 2 ^ 64 - 1"

fun parseDigits :: "int \<Rightarrow> int \<Rightarrow> string \<Rightarrow> numError + int" where
  "parseDigits base n [] = Inr n"
| "parseDigits base n (c # cs) =
     (case digitVal c of
        None \<Rightarrow> Inl ErrSyntax
      | Some d \<Rightarrow>
          if d \<ge> base then Inl ErrSyntax
          else if n \<ge> maxUint64 div base + 1 then Inl ErrRange
          else if n * base + d > maxUint64 then Inl ErrRange
          else parseDigits base (n * base + d) cs)"

definition ParseUint :: "string \<Rightarrow> int \<Rightarrow> numError + int" where
  "ParseUint s base = (if s = [] then Inl ErrSyntax else parseDigits base 0 s)"

definition ParseInt :: "string \<Rightarrow> int \<Rightarrow> numError + int" where
  "ParseInt s base =
     (if s = [] then Inl ErrSyntax
      else
        let neg = (hd s = CHR ''-'');
            s' = (if hd s = CHR ''+'' \<or> hd s = CHR ''-'' then tl s else s)
        in case ParseUint s' base of
             Inl e \<Rightarrow> Inl e
           | Inr un \<Rightarrow>
               if \<not> neg \<and> un \<ge> 2 ^ 63 then Inl ErrRange
               else if neg \<and> un > 2 ^ 63 then Inl ErrRange
               else Inr (if neg then - un else un))"

definition Atoi :: "string \<Rightarrow> numError + int" where
  "Atoi s = ParseInt s 10"

text \<open>An \<open>int64\<close> is an \<open>int\<close>; \<open>wrap64\<close> is the wrap-around of 64-bit addition.\<close>

definition wrap64 :: "int \<Rightarrow> int" where
  "wrap64 x = (x + 2 ^ 63) mod 2 ^ 64 - 2 ^ 63"

section \<open>The method test of the executor\<close>

text \<open>
  \<^verbatim>\<open>
  func isHEAD(req string) bool {
      return len(req) >= len("HEAD") && strings.ToLower(req[:len("HEAD")]) == "head"
  }
  \<close>
\<close>

definition isHEAD :: "string \<Rightarrow> bool" where
  "isHEAD req \<longleftrightarrow> length req \<ge> length ''HEAD'' \<and> ToLower (take (length ''HEAD'') req) = ''head''"

section \<open>The error classifier\<close>

text \<open>
  \<^verbatim>\<open>
  func toErrno(err error) int {
      if errors.Is(err, context.DeadlineExceeded) { return 31 }
      switch err2 := err.(type) {
      case *net.OpError:
          switch err3 := err2.Err.(type) {
          case *net.DNSError:
              if err3.IsNotFound { return 10 } else if err3.IsTimeout { return 11 }
          case *os.SyscallError:
              if err3.Err == syscall.ECONNREFUSED { return 30 }
          case net.Error:
              if err3.Timeout() { return 31 }
          }
      case *tls.CertificateVerificationError:
          return 20
      }
      return 99
  }
  \<close>
  The shape of an error is what the classifier can see of it: whether \<open>errors.Is\<close>
  finds \<open>context.DeadlineExceeded\<close> in it (the field \<open>deadline\<close>), and which case of
  the type switches its dynamic type falls into, with the fields read there. The cases
  of a switch are tried in their order, so \<open>NetError\<close> is a value that implements
  \<open>net.Error\<close> and is neither a \<open>*net.DNSError\<close> nor a \<open>*os.SyscallError\<close>; its
  argument is what \<open>Timeout()\<close> returns. \<open>SyscallError refused\<close> holds whether the
  wrapped error equals \<open>syscall.ECONNREFUSED\<close>. \<open>OtherCause\<close> and \<open>OtherError\<close> are all
  the remaining dynamic types, nil included.
\<close>

datatype cause =
    DNSError (IsNotFound: bool) (IsTimeout: bool)
  | SyscallError (refused: bool)
  | NetError (Timeout: bool)
  | OtherCause

datatype shape =
    OpError cause
  | CertificateVerificationError
  | OtherError

record goerror =
  deadline :: bool
  shape :: shape

fun opErrno :: "cause \<Rightarrow> int" where
  "opErrno (DNSError nf tmo) = (if nf then 10 else if tmo then 11 else 99)"
| "opErrno (SyscallError rf) = (if rf then 30 else 99)"
| "opErrno (NetError tmo) = (if tmo then 31 else 99)"
| "opErrno OtherCause = 99"

fun shapeErrno :: "shape \<Rightarrow> int" where
  "shapeErrno (OpError err3) = opErrno err3"
| "shapeErrno CertificateVerificationError = 20"
| "shapeErrno OtherError = 99"

definition toErrno :: "goerror \<Rightarrow> int" where
  "toErrno err = (if deadline err then 31 else shapeErrno (shape err))"

section \<open>The instrumented stream\<close>

text \<open>
  \<^verbatim>\<open>
  type timedReader struct { r io.Reader; readAt time.Time }

  func (t *timedReader) Read(p []byte) (n int, err error) {
      n, err = t.r.Read(p)
      if t.readAt.IsZero() && n > 0 { t.readAt = time.Now() }
      return n, err
  }
  \<close>
  The wrapped reader is any state \<open>'r\<close> with a read function: given the state and
  \<open>len(p)\<close> it returns the bytes it put into \<open>p\<close> (their number is \<open>n\<close>), the error,
  and its next state. An instant is a number, the zero instant is 0, and the clock is an
  argument of \<open>Read\<close>: the value \<open>time.Now()\<close> has at that call.
\<close>

type_synonym instant = int

definition IsZero :: "instant \<Rightarrow> bool" where
  "IsZero t \<longleftrightarrow> t = 0"

type_synonym ('r, 'e) rdfun = "'r \<Rightarrow> nat \<Rightarrow> (string \<times> 'e option) \<times> 'r"

record 'r timedReader =
  r :: 'r
  readAt :: instant

definition timedRead ::
  "('r, 'e) rdfun \<Rightarrow> instant \<Rightarrow> 'r timedReader \<Rightarrow> nat \<Rightarrow> (string \<times> 'e option) \<times> 'r timedReader" where
  "timedRead rd now t p =
     (case rd (r t) p of
        ((bs, err), r') \<Rightarrow>
          ((bs, err),
           t\<lparr>r := r', readAt := (if IsZero (readAt t) \<and> length bs > 0 then now else readAt t)\<rparr>))"

text \<open>
  A sequence of calls: each call has the length of its buffer and the clock's value.
  \<open>plainReads\<close> is the same sequence on the wrapped reader alone.
\<close>

fun timedReads ::
  "('r, 'e) rdfun \<Rightarrow> 'r timedReader \<Rightarrow> (nat \<times> instant) list \<Rightarrow> (string \<times> 'e option) list \<times> 'r timedReader" where
  "timedReads rd t [] = ([], t)"
| "timedReads rd t ((p, now) # calls) =
     (case timedRead rd now t p of
        (res, t') \<Rightarrow> (case timedReads rd t' calls of (ress, t'') \<Rightarrow> (res # ress, t'')))"

fun plainReads ::
  "('r, 'e) rdfun \<Rightarrow> 'r \<Rightarrow> nat list \<Rightarrow> (string \<times> 'e option) list \<times> 'r" where
  "plainReads rd s [] = ([], s)"
| "plainReads rd s (p # ps) =
     (case rd s p of
        (res, s') \<Rightarrow> (case plainReads rd s' ps of (ress, s'') \<Rightarrow> (res # ress, s'')))"

text \<open>The clock's value at the first call that yields a byte, 0 when no call does.\<close>

fun firstByteAt :: "(string \<times> 'e option) list \<Rightarrow> instant list \<Rightarrow> instant" where
  "firstByteAt ((bs, e) # ress) (now # nows) = (if length bs > 0 then now else firstByteAt ress nows)"
| "firstByteAt _ _ = 0"

text \<open>
  A reader for examples: its state is the list of the pieces it will hand out, one per
  call and cut to the length asked for; after the last piece it reports the end.
\<close>

datatype scriptEnd = ScriptEOF

fun scripted :: "(string list, scriptEnd) rdfun" where
  "scripted [] p = (([], Some ScriptEOF), [])"
| "scripted (x # xs) p = ((take p x, None), xs)"

section \<open>Errors and results\<close>

text \<open>
  The errors the extractor returns. \<open>EOF\<close> and \<open>ErrUnexpectedEOF\<close> are those of
  package \<open>io\<close>; \<open>ReadError\<close> is any other error of the stream (a timeout, a reset),
  with its message. The others are the extractor's own, one for each \<open>fmt.Errorf\<close> of
  the source, holding the error they wrap and the text they quote.
  A call returns a value (\<open>Ok\<close>), returns an error (\<open>Err\<close>) or panics (\<open>Panic\<close>).
\<close>

datatype error =
    EOF
  | ErrUnexpectedEOF
  | ReadError string
  | CouldNotReadLine error
  | CouldNotReadStatusLine error
  | MultipleContentLength
  | InvalidContentLength string numError
  | InvalidChunk string
  | CouldNotReadFullChunkBody error

datatype 'a result = Ok 'a | Err error | Panic

section \<open>The stream\<close>

text \<open>
  The \<open>io.Reader\<close> handed to the extractor: the bytes it will still deliver
  (\<open>pending\<close>) and the error it returns once they are delivered (\<open>final\<close>: \<open>EOF\<close> for a
  stream that ends, another error for one that times out or breaks). How many bytes one
  \<open>Read\<close> hands over is up to the stream: \<open>deliver\<close> gives that number from what is
  pending, and a read returns at least one byte while bytes are pending and never more
  than it was asked for.
\<close>

record conn =
  pending :: string
  final :: error
  deliver :: "string \<Rightarrow> nat"

definition connRead :: "conn \<Rightarrow> nat \<Rightarrow> (error + string) \<times> conn" where
  "connRead c k =
     (if pending c = [] then (Inl (final c), c)
      else let m = min k (max 1 (deliver c (pending c)))
           in (Inr (take m (pending c)), c\<lparr>pending := drop m (pending c)\<rparr>))"

text \<open>
  \<open>strings.NewReader(s)\<close>, the stream of the test suite: it hands over all it is asked
  for, and ends with \<open>EOF\<close>.
\<close>

definition stringsReader :: "string \<Rightarrow> conn" where
  "stringsReader s = \<lparr>pending = s, final = EOF, deliver = length\<rparr>"

lemma connRead_Inr:
  assumes "connRead c k = (Inr bs, c')" and "0 < k"
  shows "bs \<noteq> []" "length bs \<le> k" "pending c = bs @ pending c'" "final c' = final c"
    "deliver c' = deliver c"
  using assms by (auto simp: connRead_def Let_def split: if_splits)

lemma connRead_Inl:
  assumes "connRead c k = (Inl e, c')"
  shows "pending c = []" "e = final c" "c' = c"
  using assms by (auto simp: connRead_def Let_def split: if_splits)

section \<open>The buffered reader\<close>

text \<open>
  \<open>bufio.NewReader(in)\<close>: a buffer of 4096 bytes in front of the stream. \<open>buf\<close> holds
  the bytes read from the stream and not yet handed out. What is still to come for the
  reader's user is \<open>remaining\<close>: the buffered bytes, then the stream's pending ones.
\<close>

definition defaultBufSize :: nat where
  "defaultBufSize = 4096"

record Reader =
  buf :: string
  src :: conn

definition NewReader :: "conn \<Rightarrow> Reader" where
  "NewReader c = \<lparr>buf = [], src = c\<rparr>"

definition remaining :: "Reader \<Rightarrow> string" where
  "remaining b = buf b @ pending (src b)"

text \<open>
  \<open>ReadBytes(delim)\<close> returns the bytes up to and including the first \<open>delim\<close>. It
  searches the buffer; when the delimiter is not there it sets a full buffer aside
  (\<open>full\<close> collects these fragments) or fills the buffer with one read of the stream.
  When the stream fails first, it returns the bytes read so far together with the error.
\<close>

function collectFragments :: "string \<Rightarrow> Reader \<Rightarrow> char \<Rightarrow> (string \<times> error option) \<times> Reader" where
  "collectFragments full b delim =
     (if delim \<in> set (buf b) then
        ((full @ takeWhile (\<lambda>c. c \<noteq> delim) (buf b) @ [delim], None),
         b\<lparr>buf := tl (dropWhile (\<lambda>c. c \<noteq> delim) (buf b))\<rparr>)
      else if length (buf b) \<ge> defaultBufSize then
        collectFragments (full @ buf b) (b\<lparr>buf := []\<rparr>) delim
      else
        (case connRead (src b) (defaultBufSize - length (buf b)) of
           (Inl e, c') \<Rightarrow> ((full @ buf b, Some e), b\<lparr>buf := [], src := c'\<rparr>)
         | (Inr bs, c') \<Rightarrow> collectFragments full (b\<lparr>buf := buf b @ bs, src := c'\<rparr>) delim))"
  by pat_completeness auto
termination
proof (relation "measure (\<lambda>(full, b, delim). 2 * length (pending (src b)) + (if buf b = [] then 0 else 1))", goal_cases)
  case 1
  show ?case by simp
next
  case (2 full b delim)
  then show ?case by (auto simp: defaultBufSize_def)
next
  case (3 full b delim x xa y)
  then have "connRead (src b) (defaultBufSize - length (buf b)) = (Inr y, xa)" by simp
  from connRead_Inr(1,3) [OF this] 3 show ?case by (cases y) auto
qed

definition ReadBytes :: "Reader \<Rightarrow> char \<Rightarrow> (string \<times> error option) \<times> Reader" where
  "ReadBytes b delim = collectFragments [] b delim"

text \<open>
  \<open>Read(p)\<close> for a \<open>p\<close> of \<open>n\<close> bytes, where \<open>n\<close> is between 1 and 1024 as in
  \<open>copyN\<close> (less than the buffer's size): an empty buffer is filled by one read of
  the stream, then as many buffered bytes as fit are handed out.
\<close>

definition Read :: "Reader \<Rightarrow> nat \<Rightarrow> (error + string) \<times> Reader" where
  "Read b n =
     (if buf b = [] then
        (case connRead (src b) defaultBufSize of
           (Inl e, c') \<Rightarrow> (Inl e, b\<lparr>src := c'\<rparr>)
         | (Inr bs, c') \<Rightarrow> (Inr (take n bs), b\<lparr>buf := drop n bs, src := c'\<rparr>))
      else (Inr (take n (buf b)), b\<lparr>buf := drop n (buf b)\<rparr>))"

subsection \<open>Facts about reads, for the termination proofs\<close>

lemma takeWhile_notin:
  "d \<notin> set xs \<Longrightarrow> takeWhile (\<lambda>c. c \<noteq> d) (xs @ ys) = xs @ takeWhile (\<lambda>c. c \<noteq> d) ys"
  by (induction xs) auto

lemma dropWhile_notin:
  "d \<notin> set xs \<Longrightarrow> dropWhile (\<lambda>c. c \<noteq> d) (xs @ ys) = dropWhile (\<lambda>c. c \<noteq> d) ys"
  by (induction xs) auto

lemma takeWhile_in:
  "d \<in> set xs \<Longrightarrow> takeWhile (\<lambda>c. c \<noteq> d) (xs @ ys) = takeWhile (\<lambda>c. c \<noteq> d) xs"
  by (induction xs) auto

lemma dropWhile_in:
  "d \<in> set xs \<Longrightarrow> dropWhile (\<lambda>c. c \<noteq> d) (xs @ ys) = dropWhile (\<lambda>c. c \<noteq> d) xs @ ys"
  by (induction xs) auto

lemma dropWhile_in_ne:
  "d \<in> set xs \<Longrightarrow> dropWhile (\<lambda>c. c \<noteq> d) xs \<noteq> []"
  by (induction xs) auto

lemma collectFragments_spec:
  "collectFragments full b delim = (res, b') \<Longrightarrow>
     final (src b') = final (src b) \<and> deliver (src b') = deliver (src b) \<and>
     (if delim \<in> set (remaining b)
      then res = (full @ takeWhile (\<lambda>c. c \<noteq> delim) (remaining b) @ [delim], None)
           \<and> remaining b' = tl (dropWhile (\<lambda>c. c \<noteq> delim) (remaining b))
      else res = (full @ remaining b, Some (final (src b))) \<and> remaining b' = [])"
proof (induction full b delim arbitrary: res b' rule: collectFragments.induct)
  case (1 full b delim)
  show ?case
  proof (cases "delim \<in> set (buf b)")
    case True
    with "1.prems" show ?thesis
      by (auto simp: remaining_def takeWhile_in dropWhile_in dropWhile_in_ne)
  next
    case nd: False
    show ?thesis
    proof (cases "length (buf b) \<ge> defaultBufSize")
      case True
      with nd "1.prems" have call: "collectFragments (full @ buf b) (b\<lparr>buf := []\<rparr>) delim = (res, b')"
        by simp
      from "1.IH"(1) [OF nd True call] nd show ?thesis
        by (auto simp: remaining_def takeWhile_notin dropWhile_notin)
    next
      case nf: False
      obtain x c' where rd: "connRead (src b) (defaultBufSize - length (buf b)) = (x, c')"
        by (metis prod.exhaust)
      from nf have pos: "0 < defaultBufSize - length (buf b)" by simp
      show ?thesis
      proof (cases x)
        case (Inl e)
        from connRead_Inl [OF rd [unfolded Inl]] nd nf "1.prems" rd Inl show ?thesis
          by (auto simp: remaining_def)
      next
        case (Inr bs)
        from nd nf "1.prems" rd Inr
        have call: "collectFragments full (b\<lparr>buf := buf b @ bs, src := c'\<rparr>) delim = (res, b')"
          by simp
        from connRead_Inr [OF rd [unfolded Inr] pos]
        have facts: "pending (src b) = bs @ pending c'" "final c' = final (src b)"
          "deliver c' = deliver (src b)" by simp_all
        from "1.IH"(2) [OF nd nf rd [symmetric] Inr call] facts show ?thesis
          by (auto simp: remaining_def)
      qed
    qed
  qed
qed

lemma ReadBytes_spec:
  "ReadBytes b delim = (res, b') \<Longrightarrow>
     final (src b') = final (src b) \<and> deliver (src b') = deliver (src b) \<and>
     (if delim \<in> set (remaining b)
      then res = (takeWhile (\<lambda>c. c \<noteq> delim) (remaining b) @ [delim], None)
           \<and> remaining b' = tl (dropWhile (\<lambda>c. c \<noteq> delim) (remaining b))
      else res = (remaining b, Some (final (src b))) \<and> remaining b' = [])"
  unfolding ReadBytes_def using collectFragments_spec [of "[]" b delim res b'] by simp

lemma Read_spec:
  assumes "Read b n = (res, b')" and "0 < n"
  shows "final (src b') = final (src b) \<and> deliver (src b') = deliver (src b) \<and>
     (case res of
        Inl e \<Rightarrow> remaining b = [] \<and> e = final (src b) \<and> remaining b' = []
      | Inr bs \<Rightarrow> bs \<noteq> [] \<and> length bs \<le> n \<and> remaining b = bs @ remaining b')"
proof (cases "buf b = []")
  case True
  obtain x c' where rd: "connRead (src b) defaultBufSize = (x, c')" by (metis prod.exhaust)
  show ?thesis
  proof (cases x)
    case (Inl e)
    from connRead_Inl [OF rd [unfolded Inl]] assms True rd Inl show ?thesis
      by (auto simp: Read_def remaining_def)
  next
    case (Inr bs)
    have "0 < defaultBufSize" by (simp add: defaultBufSize_def)
    from connRead_Inr [OF rd [unfolded Inr] this] assms True rd Inr show ?thesis
      by (auto simp: Read_def remaining_def)
  qed
next
  case False
  with assms show ?thesis
    by (auto simp: Read_def remaining_def)
qed

lemma Read_Inr_nonempty: "Read b n = (Inr bs, b') \<Longrightarrow> 0 < n \<Longrightarrow> bs \<noteq> []"
  using Read_spec [of b n "Inr bs" b'] by simp

subsection \<open>Reading a full buffer\<close>

text \<open>
  \<open>io.ReadFull(in, buf)\<close> reads until \<open>buf\<close> is full (\<open>k\<close> bytes are still
  missing, \<open>got\<close> are there). An error before that is returned; \<open>EOF\<close> after some
  bytes becomes \<open>ErrUnexpectedEOF\<close>.
\<close>

function readAtLeast :: "Reader \<Rightarrow> string \<Rightarrow> nat \<Rightarrow> (error + string) \<times> Reader" where
  "readAtLeast b got k =
     (if k = 0 then (Inr got, b)
      else (case Read b k of
              (Inl e, b') \<Rightarrow> (Inl (if got \<noteq> [] \<and> e = EOF then ErrUnexpectedEOF else e), b')
            | (Inr bs, b') \<Rightarrow> readAtLeast b' (got @ bs) (k - length bs)))"
  by pat_completeness auto
termination
proof (relation "measure (\<lambda>(b, got, k). k)", goal_cases)
  case 1
  show ?case by simp
next
  case (2 b got k x b' bs)
  then have "Read b k = (Inr bs, b')" "0 < k" by simp_all
  from Read_Inr_nonempty [OF this] 2 show ?case by (cases bs) auto
qed

definition ReadFull :: "Reader \<Rightarrow> nat \<Rightarrow> (error + string) \<times> Reader" where
  "ReadFull b n = readAtLeast b [] n"

lemma readAtLeast_spec:
  "readAtLeast b got k = (res, b') \<Longrightarrow>
     final (src b') = final (src b) \<and> deliver (src b') = deliver (src b) \<and>
     (if k \<le> length (remaining b)
      then res = Inr (got @ take k (remaining b)) \<and> remaining b' = drop k (remaining b)
      else res = Inl (if got @ remaining b \<noteq> [] \<and> final (src b) = EOF then ErrUnexpectedEOF
                      else final (src b))
           \<and> remaining b' = [])"
proof (induction b got k arbitrary: res b' rule: readAtLeast.induct)
  case (1 b got k)
  show ?case
  proof (cases "k = 0")
    case True
    with "1.prems" show ?thesis by simp
  next
    case kpos: False
    obtain x b1 where rd: "Read b k = (x, b1)" by (metis prod.exhaust)
    from kpos have k0: "0 < k" by simp
    note rs = Read_spec [OF rd k0]
    show ?thesis
    proof (cases x)
      case (Inl e)
      with rs have e: "remaining b = []" "e = final (src b)" "remaining b1 = []"
        "final (src b1) = final (src b)" "deliver (src b1) = deliver (src b)" by simp_all
      from kpos "1.prems" rd Inl
      have "res = Inl (if got \<noteq> [] \<and> e = EOF then ErrUnexpectedEOF else e)" "b' = b1"
        by simp_all
      with e k0 show ?thesis by simp
    next
      case (Inr bs)
      with kpos "1.prems" rd have call: "readAtLeast b1 (got @ bs) (k - length bs) = (res, b')"
        by simp
      from rs Inr have bs: "bs \<noteq> []" "length bs \<le> k" "remaining b = bs @ remaining b1"
        "final (src b1) = final (src b)" "deliver (src b1) = deliver (src b)" by simp_all
      note ih = "1.IH" [OF kpos rd [symmetric] Inr call]
      show ?thesis
      proof (cases "k \<le> length (remaining b)")
        case True
        with bs have fit: "k - length bs \<le> length (remaining b1)" by simp
        from ih fit have "res = Inr ((got @ bs) @ take (k - length bs) (remaining b1))"
          "remaining b' = drop (k - length bs) (remaining b1)"
          "final (src b') = final (src b1)" "deliver (src b') = deliver (src b1)" by simp_all
        with True bs show ?thesis by simp
      next
        case False
        with bs have nofit: "\<not> k - length bs \<le> length (remaining b1)" by simp
        from ih nofit bs(1) have "res = Inl (if final (src b1) = EOF then ErrUnexpectedEOF else final (src b1))"
          "remaining b' = []"
          "final (src b') = final (src b1)" "deliver (src b') = deliver (src b1)" by simp_all
        with False bs show ?thesis by simp
      qed
    qed
  qed
qed

section \<open>The extractor\<close>

text \<open>
  The output is a \<open>strings.Builder\<close>, whose \<open>Write\<close> never fails: it is the string
  \<open>out\<close>, passed on with every byte appended. Each function returns its result, the
  reader after the call and the output after the call.

  \<^verbatim>\<open>
  func readAndCopyLine(in *bufio.Reader, out io.Writer) (string, error) {
      rawLine, err := in.ReadBytes('\n')
      if err != nil { return "", fmt.Errorf("could not read line: %w", err) }
      if _, err := out.Write(rawLine); err != nil { ... }
      return strings.TrimRight(string(rawLine), "\r\n"), nil
  }
  \<close>
\<close>

definition readAndCopyLine :: "Reader \<Rightarrow> string \<Rightarrow> string result \<times> Reader \<times> string" where
  "readAndCopyLine inp out =
     (case ReadBytes inp LF of
        ((rawLine, Some e), inp') \<Rightarrow> (Err (CouldNotReadLine e), inp', out)
      | ((rawLine, None), inp') \<Rightarrow> (Ok (TrimRight rawLine [CR, LF]), inp', out @ rawLine))"

text \<open>
  \<^verbatim>\<open>
  func copyN(in *bufio.Reader, out io.Writer, n int64) error {
      if n == 0 { return nil }
      for n > maxBufSize {
          buf := make([]byte, maxBufSize)
          read, err := in.Read(buf)
          if err != nil { return err }
          _, err = out.Write(buf[:read])
          n -= int64(read)
      }
      buf := make([]byte, n)
      if _, err := io.ReadFull(in, buf); err != nil { return err }
      _, err := out.Write(buf)
      return err
  }
  \<close>
  \<open>copyLoop\<close> is the \<open>for\<close> loop; it returns the \<open>n\<close> it ends with.
  \<open>make([]byte, n)\<close> panics when \<open>n\<close> is negative.
\<close>

definition maxBufSize :: int where
  "maxBufSize = 1024"

function copyLoop :: "Reader \<Rightarrow> string \<Rightarrow> int \<Rightarrow> int result \<times> Reader \<times> string" where
  "copyLoop inp out n =
     (if n > maxBufSize then
        (case Read inp (nat maxBufSize) of
           (Inl e, inp') \<Rightarrow> (Err e, inp', out)
         | (Inr bs, inp') \<Rightarrow> copyLoop inp' (out @ bs) (n - int (length bs)))
      else (Ok n, inp, out))"
  by pat_completeness auto
termination
proof (relation "measure (\<lambda>(inp, out, n). nat n)", goal_cases)
  case 1
  show ?case by simp
next
  case (2 inp out n x inp' bs)
  then have "Read inp (nat maxBufSize) = (Inr bs, inp')" by simp
  from Read_Inr_nonempty [OF this] 2 show ?case by (cases bs) (auto simp: maxBufSize_def)
qed

definition copyN :: "Reader \<Rightarrow> string \<Rightarrow> int \<Rightarrow> unit result \<times> Reader \<times> string" where
  "copyN inp out n =
     (if n = 0 then (Ok (), inp, out)
      else (case copyLoop inp out n of
              (Err e, inp', out') \<Rightarrow> (Err e, inp', out')
            | (Panic, inp', out') \<Rightarrow> (Panic, inp', out')
            | (Ok n', inp', out') \<Rightarrow>
                if n' < 0 then (Panic, inp', out')
                else (case ReadFull inp' (nat n') of
                        (Inl e, inp'') \<Rightarrow> (Err e, inp'', out')
                      | (Inr bs, inp'') \<Rightarrow> (Ok (), inp'', out' @ bs))))"

text \<open>
  \<open>io.Copy(&out, reader)\<close> writes all that remains, to the end of the stream. It
  returns nil when the stream ends with \<open>EOF\<close>, and the stream's error otherwise.
\<close>

definition ioCopy :: "Reader \<Rightarrow> string \<Rightarrow> unit result \<times> Reader \<times> string" where
  "ioCopy inp out =
     ((if final (src inp) = EOF then Ok () else Err (final (src inp))),
      inp\<lparr>buf := [], src := (src inp)\<lparr>pending := []\<rparr>\<rparr>,
      out @ remaining inp)"

subsection \<open>Facts about lines and copies, for the termination proofs\<close>

lemma readAndCopyLine_spec:
  assumes "readAndCopyLine inp out = (res, inp', out')"
  shows "final (src inp') = final (src inp) \<and> deliver (src inp') = deliver (src inp) \<and>
     (if LF \<in> set (remaining inp)
      then res = Ok (TrimRight (takeWhile (\<lambda>c. c \<noteq> LF) (remaining inp) @ [LF]) [CR, LF])
           \<and> out' = out @ takeWhile (\<lambda>c. c \<noteq> LF) (remaining inp) @ [LF]
           \<and> remaining inp' = tl (dropWhile (\<lambda>c. c \<noteq> LF) (remaining inp))
      else res = Err (CouldNotReadLine (final (src inp))) \<and> out' = out \<and> remaining inp' = [])"
proof -
  obtain rb b1 where rb: "ReadBytes inp LF = (rb, b1)" by (metis prod.exhaust)
  from ReadBytes_spec [OF rb] assms rb show ?thesis
    by (auto simp: readAndCopyLine_def split: if_splits)
qed

lemma readAndCopyLine_shorter:
  assumes "readAndCopyLine inp out = (Ok line, inp', out')"
  shows "length (remaining inp') < length (remaining inp)"
proof -
  from readAndCopyLine_spec [OF assms] have lf: "LF \<in> set (remaining inp)"
    and r: "remaining inp' = tl (dropWhile (\<lambda>c. c \<noteq> LF) (remaining inp))"
    by (auto split: if_splits)
  have "length (dropWhile (\<lambda>c. c \<noteq> LF) (remaining inp)) \<le> length (remaining inp)"
    by (rule length_dropWhile_le)
  moreover from lf have "dropWhile (\<lambda>c. c \<noteq> LF) (remaining inp) \<noteq> []"
    by (rule dropWhile_in_ne)
  ultimately show ?thesis unfolding r
    by (cases "dropWhile (\<lambda>c. c \<noteq> LF) (remaining inp)") auto
qed

lemma copyLoop_spec:
  "copyLoop inp out n = (res, inp', out') \<Longrightarrow>
     final (src inp') = final (src inp) \<and> deliver (src inp') = deliver (src inp) \<and>
     (\<exists>k. k \<le> length (remaining inp) \<and> out' = out @ take k (remaining inp)
        \<and> remaining inp' = drop k (remaining inp)
        \<and> (case res of
              Ok m \<Rightarrow> m = n - int k \<and> (if n > maxBufSize then 0 < m \<and> m \<le> maxBufSize else k = 0)
            | Err e \<Rightarrow> e = final (src inp) \<and> k = length (remaining inp) \<and> int k < n
            | Panic \<Rightarrow> False))"
proof (induction inp out n arbitrary: res inp' out' rule: copyLoop.induct)
  case (1 inp out n)
  show ?case
  proof (cases "n > maxBufSize")
    case False
    with "1.prems" have "res = Ok n" "inp' = inp" "out' = out" by simp_all
    with False show ?thesis by simp
  next
    case big: True
    obtain x b1 where rd: "Read inp (nat maxBufSize) = (x, b1)" by (metis prod.exhaust)
    have k0: "0 < nat maxBufSize" by (simp add: maxBufSize_def)
    note rs = Read_spec [OF rd k0]
    show ?thesis
    proof (cases x)
      case (Inl e)
      with rs have e: "remaining inp = []" "e = final (src inp)" "remaining b1 = []"
        "final (src b1) = final (src inp)" "deliver (src b1) = deliver (src inp)" by simp_all
      from big "1.prems" rd Inl have "res = Err e" "inp' = b1" "out' = out" by simp_all
      with e big show ?thesis by (simp add: maxBufSize_def)
    next
      case (Inr bs)
      with big "1.prems" rd have call: "copyLoop b1 (out @ bs) (n - int (length bs)) = (res, inp', out')"
        by simp
      from rs Inr have bs: "bs \<noteq> []" "length bs \<le> nat maxBufSize" "remaining inp = bs @ remaining b1"
        "final (src b1) = final (src inp)" "deliver (src b1) = deliver (src inp)" by simp_all
      from "1.IH" [OF big rd [symmetric] Inr call]
      obtain k where k: "k \<le> length (remaining b1)" "out' = (out @ bs) @ take k (remaining b1)"
        "remaining inp' = drop k (remaining b1)"
        and kres: "case res of
              Ok m \<Rightarrow> m = (n - int (length bs)) - int k
                 \<and> (if n - int (length bs) > maxBufSize then 0 < m \<and> m \<le> maxBufSize else k = 0)
            | Err e \<Rightarrow> e = final (src b1) \<and> k = length (remaining b1) \<and> int k < n - int (length bs)
            | Panic \<Rightarrow> False"
        and pres: "final (src inp') = final (src b1)" "deliver (src inp') = deliver (src b1)"
        by blast
      define j where "j = length bs + k"
      have j1: "j \<le> length (remaining inp)" using k(1) bs(3) by (simp add: j_def)
      have j2: "out' = out @ take j (remaining inp)" using k(2) bs(3) by (simp add: j_def)
      have j3: "remaining inp' = drop j (remaining inp)" using k(3) bs(3) by (simp add: j_def)
      have j4: "case res of
              Ok m \<Rightarrow> m = n - int j \<and> (if n > maxBufSize then 0 < m \<and> m \<le> maxBufSize else j = 0)
            | Err e \<Rightarrow> e = final (src inp) \<and> j = length (remaining inp) \<and> int j < n
            | Panic \<Rightarrow> False"
      proof (cases res)
        case (Ok m)
        with kres have "m = (n - int (length bs)) - int k
          \<and> (if n - int (length bs) > maxBufSize then 0 < m \<and> m \<le> maxBufSize else k = 0)"
          by (simp split: if_splits)
        with big bs(1,2) Ok show ?thesis
          by (cases bs) (auto simp: j_def maxBufSize_def split: if_splits)
      next
        case (Err e)
        with kres bs show ?thesis by (simp add: j_def)
      next
        case Panic
        with kres show ?thesis by simp
      qed
      from j1 j2 j3 j4
      have ex: "\<exists>k. k \<le> length (remaining inp) \<and> out' = out @ take k (remaining inp)
        \<and> remaining inp' = drop k (remaining inp)
        \<and> (case res of
              Ok m \<Rightarrow> m = n - int k \<and> (if n > maxBufSize then 0 < m \<and> m \<le> maxBufSize else k = 0)
            | Err e \<Rightarrow> e = final (src inp) \<and> k = length (remaining inp) \<and> int k < n
            | Panic \<Rightarrow> False)"
        by blast
      from pres bs(4,5) have "final (src inp') = final (src inp)" "deliver (src inp') = deliver (src inp)"
        by simp_all
      with ex show ?thesis by blast
    qed
  qed
qed

lemma copyN_shrinks:
  assumes "copyN inp out n = (res, inp', out')"
  shows "length (remaining inp') \<le> length (remaining inp)" "final (src inp') = final (src inp)"
proof -
  have "length (remaining inp') \<le> length (remaining inp) \<and> final (src inp') = final (src inp)"
  proof (cases "n = 0")
    case True
    with assms show ?thesis by (simp add: copyN_def)
  next
    case nz: False
    obtain x b1 o1 where cl: "copyLoop inp out n = (x, b1, o1)" by (metis prod_cases3)
    from copyLoop_spec [OF cl] have l1: "length (remaining b1) \<le> length (remaining inp)"
      "final (src b1) = final (src inp)" by auto
    show ?thesis
    proof (cases x)
      case (Ok m)
      show ?thesis
      proof (cases "m < 0")
        case True
        with assms nz cl Ok l1 show ?thesis by (simp add: copyN_def)
      next
        case False
        obtain y b2 where rf: "readAtLeast b1 [] (nat m) = (y, b2)" by (metis prod.exhaust)
        from readAtLeast_spec [OF rf] have "length (remaining b2) \<le> length (remaining b1)"
          "final (src b2) = final (src b1)" by (auto split: if_splits)
        with assms nz cl Ok l1 False rf show ?thesis
          by (cases y) (auto simp: copyN_def ReadFull_def)
      qed
    next
      case (Err e)
      with assms nz cl l1 show ?thesis by (simp add: copyN_def)
    next
      case Panic
      with assms nz cl l1 show ?thesis by (simp add: copyN_def)
    qed
  qed
  then show "length (remaining inp') \<le> length (remaining inp)" "final (src inp') = final (src inp)"
    by simp_all
qed

subsection \<open>The head\<close>

text \<open>
  \<^verbatim>\<open>
  func hasNoBodyStatusCode(statusLine string) bool {
      fields := strings.Fields(statusLine)
      if len(fields) < 2 { return false }
      statusCode, err := strconv.Atoi(fields[1])
      if err != nil { return false }
      return statusCode >= 100 && statusCode < 200 || statusCode == 204 || statusCode == 304
  }
  \<close>
\<close>

definition hasNoBodyStatusCode :: "string \<Rightarrow> bool" where
  "hasNoBodyStatusCode statusLine =
     (let fields = Fields statusLine in
      if length fields < 2 then False
      else (case Atoi (fields ! 1) of
              Inl e \<Rightarrow> False
            | Inr statusCode \<Rightarrow>
                statusCode \<ge> 100 \<and> statusCode < 200 \<or> statusCode = 204 \<or> statusCode = 304))"

text \<open>
  The body of the header loop: what one header line does to \<open>contentLength\<close> and to
  \<open>chunked\<close>. Indexing a slice out of its range panics.
  \<^verbatim>\<open>
  lowerLine := strings.ToLower(line)
  if strings.HasPrefix(lowerLine, "content-length:") {
      if contentLength != nil {
          return nil, false, false, fmt.Errorf("multiple Content-Length headers found")
      }
      n := strings.TrimSpace(strings.SplitN(line, ":", 2)[1])
      i, err := strconv.ParseInt(n, 10, 64)
      if err != nil {
          return nil, false, false, fmt.Errorf("invalid Content-Length in '%s': %w", line, err)
      }
      contentLength = &i
  }
  if strings.HasPrefix(lowerLine, "transfer-encoding:") {
      fields := strings.Split(strings.SplitN(line, ":", 2)[1], ",")
      chunked = strings.TrimSpace(fields[len(fields)-1]) == "chunked"
  }
  \<close>
\<close>

definition index :: "'a list \<Rightarrow> nat \<Rightarrow> 'a result" where
  "index xs i = (if i < length xs then Ok (xs ! i) else Panic)"

definition trackContentLength :: "string \<Rightarrow> int option \<Rightarrow> int option result" where
  "trackContentLength line contentLength =
     (let lowerLine = ToLower line in
      if HasPrefix lowerLine ''content-length:'' then
        (if contentLength \<noteq> None then Err MultipleContentLength
         else (case index (SplitN2 line CHR '':'') 1 of
                 Panic \<Rightarrow> Panic
               | Err e \<Rightarrow> Err e
               | Ok v \<Rightarrow>
                   (case ParseInt (TrimSpace v) 10 of
                      Inl e \<Rightarrow> Err (InvalidContentLength line e)
                    | Inr i \<Rightarrow> Ok (Some i))))
      else Ok contentLength)"

definition trackTransferEncoding :: "string \<Rightarrow> bool \<Rightarrow> bool result" where
  "trackTransferEncoding line chunked =
     (let lowerLine = ToLower line in
      if HasPrefix lowerLine ''transfer-encoding:'' then
        (case index (SplitN2 line CHR '':'') 1 of
           Panic \<Rightarrow> Panic
         | Err e \<Rightarrow> Err e
         | Ok v \<Rightarrow>
             (let fields = Split v CHR '','' in
              Ok (TrimSpace (last fields) = ''chunked'')))
      else Ok chunked)"

text \<open>
  \<^verbatim>\<open>
  func readHead(in *bufio.Reader, out io.Writer) (*int64, bool, bool, error) {
      var contentLength *int64
      var chunked bool
      line, err := readAndCopyLine(in, out)
      if err != nil { return nil, false, false, fmt.Errorf("could not read status line: %w", err) }
      noBody := hasNoBodyStatusCode(line)
      for {
          line, err := readAndCopyLine(in, out)
          if err != nil { return nil, false, false, fmt.Errorf("could not read line: %w", err) }
          if line == "" { break }
          ... the body above ...
      }
      return contentLength, chunked, noBody, nil
  }
  \<close>
\<close>

function headerLoop ::
  "Reader \<Rightarrow> string \<Rightarrow> int option \<Rightarrow> bool \<Rightarrow> (int option \<times> bool) result \<times> Reader \<times> string" where
  "headerLoop inp out contentLength chunked =
     (case readAndCopyLine inp out of
        (Err e, inp', out') \<Rightarrow> (Err (CouldNotReadLine e), inp', out')
      | (Panic, inp', out') \<Rightarrow> (Panic, inp', out')
      | (Ok line, inp', out') \<Rightarrow>
          if line = [] then (Ok (contentLength, chunked), inp', out')
          else (case trackContentLength line contentLength of
                  Err e \<Rightarrow> (Err e, inp', out')
                | Panic \<Rightarrow> (Panic, inp', out')
                | Ok contentLength' \<Rightarrow>
                    (case trackTransferEncoding line chunked of
                       Err e \<Rightarrow> (Err e, inp', out')
                     | Panic \<Rightarrow> (Panic, inp', out')
                     | Ok chunked' \<Rightarrow> headerLoop inp' out' contentLength' chunked')))"
  by pat_completeness auto
termination
proof (relation "measure (\<lambda>(inp, out, contentLength, chunked). length (remaining inp))", goal_cases)
  case 1
  show ?case by simp
next
  case (2 inp out contentLength chunked x y line inp' out' cl' ch')
  then have "readAndCopyLine inp out = (Ok line, inp', out')" by simp
  from readAndCopyLine_shorter [OF this] show ?case by simp
qed

definition readHead ::
  "Reader \<Rightarrow> string \<Rightarrow> (int option \<times> bool \<times> bool) result \<times> Reader \<times> string" where
  "readHead inp out =
     (case readAndCopyLine inp out of
        (Err e, inp', out') \<Rightarrow> (Err (CouldNotReadStatusLine e), inp', out')
      | (Panic, inp', out') \<Rightarrow> (Panic, inp', out')
      | (Ok line, inp', out') \<Rightarrow>
          (let noBody = hasNoBodyStatusCode line in
           case headerLoop inp' out' None False of
             (Err e, inp'', out'') \<Rightarrow> (Err e, inp'', out'')
           | (Panic, inp'', out'') \<Rightarrow> (Panic, inp'', out'')
           | (Ok (contentLength, chunked), inp'', out'') \<Rightarrow>
               (Ok (contentLength, chunked, noBody), inp'', out'')))"

subsection \<open>The chunked body\<close>

text \<open>
  \<^verbatim>\<open>
  func readChunkedBody(in *bufio.Reader, out io.Writer) error {
      for {
          chunk, err := readAndCopyLine(in, out)
          if err != nil { return err }
          chunkSize, err := strconv.ParseInt(strings.Split(chunk, ";")[0], 16, 64)
          if err != nil { return fmt.Errorf("invalid chunk '%s'", chunk) }
          if chunkSize == 0 { break }
          if err = copyN(in, out, chunkSize+2); err != nil {
              return fmt.Errorf("could not read full chunk body: %w", err)
          }
      }
      for {
          line, err := readAndCopyLine(in, out)
          if err != nil { return err }
          if line == "" { return nil }
      }
  }
  \<close>
\<close>

function chunkLoop :: "Reader \<Rightarrow> string \<Rightarrow> unit result \<times> Reader \<times> string" where
  "chunkLoop inp out =
     (case readAndCopyLine inp out of
        (Err e, inp', out') \<Rightarrow> (Err e, inp', out')
      | (Panic, inp', out') \<Rightarrow> (Panic, inp', out')
      | (Ok chunk, inp', out') \<Rightarrow>
          (case ParseInt (hd (Split chunk CHR '';'')) 16 of
             Inl e \<Rightarrow> (Err (InvalidChunk chunk), inp', out')
           | Inr chunkSize \<Rightarrow>
               if chunkSize = 0 then (Ok (), inp', out')
               else (case copyN inp' out' (wrap64 (chunkSize + 2)) of
                       (Err e, inp'', out'') \<Rightarrow> (Err (CouldNotReadFullChunkBody e), inp'', out'')
                     | (Panic, inp'', out'') \<Rightarrow> (Panic, inp'', out'')
                     | (Ok u, inp'', out'') \<Rightarrow> chunkLoop inp'' out'')))"
  by pat_completeness auto
termination
proof (relation "measure (\<lambda>(inp, out). length (remaining inp))", goal_cases)
  case 1
  show ?case by simp
next
  case (2 inp out x y chunk inp' out' chunkSize xb yb u inp'' out'')
  then have a: "readAndCopyLine inp out = (Ok chunk, inp', out')"
    and b: "copyN inp' out' (wrap64 (chunkSize + 2)) = (Ok u, inp'', out'')" by simp_all
  from readAndCopyLine_shorter [OF a] copyN_shrinks(1) [OF b] show ?case by simp
qed

function trailerLoop :: "Reader \<Rightarrow> string \<Rightarrow> unit result \<times> Reader \<times> string" where
  "trailerLoop inp out =
     (case readAndCopyLine inp out of
        (Err e, inp', out') \<Rightarrow> (Err e, inp', out')
      | (Panic, inp', out') \<Rightarrow> (Panic, inp', out')
      | (Ok line, inp', out') \<Rightarrow>
          if line = [] then (Ok (), inp', out') else trailerLoop inp' out')"
  by pat_completeness auto
termination
proof (relation "measure (\<lambda>(inp, out). length (remaining inp))", goal_cases)
  case 1
  show ?case by simp
next
  case (2 inp out x y line inp' out')
  then have "readAndCopyLine inp out = (Ok line, inp', out')" by simp
  from readAndCopyLine_shorter [OF this] show ?case by simp
qed

definition readChunkedBody :: "Reader \<Rightarrow> string \<Rightarrow> unit result \<times> Reader \<times> string" where
  "readChunkedBody inp out =
     (case chunkLoop inp out of
        (Err e, inp', out') \<Rightarrow> (Err e, inp', out')
      | (Panic, inp', out') \<Rightarrow> (Panic, inp', out')
      | (Ok u, inp', out') \<Rightarrow> trailerLoop inp' out')"

subsection \<open>The response\<close>

text \<open>
  \<^verbatim>\<open>
  func ExtractResponse(in io.Reader, headRequest bool) (string, error) {
      var out strings.Builder
      reader := bufio.NewReader(in)
      contentLength, chunked, noBody, err := readHead(reader, &out)
      if err != nil || headRequest || noBody { return out.String(), err }
      if chunked {
          err = readChunkedBody(reader, &out)
      } else if contentLength != nil {
          err = copyN(reader, &out, *contentLength)
      } else {
          _, err = io.Copy(&out, reader)
      }
      return out.String(), err
  }
  \<close>
  The result is the error (\<open>Ok ()\<close> for nil), the string, and the stream as the call
  leaves it.
\<close>

definition ExtractResponse :: "conn \<Rightarrow> bool \<Rightarrow> unit result \<times> string \<times> conn" where
  "ExtractResponse c headRequest =
     (let reader = NewReader c in
      case readHead reader [] of
        (Err e, reader', out) \<Rightarrow> (Err e, out, src reader')
      | (Panic, reader', out) \<Rightarrow> (Panic, out, src reader')
      | (Ok (contentLength, chunked, noBody), reader', out) \<Rightarrow>
          if headRequest \<or> noBody then (Ok (), out, src reader')
          else
            (case (if chunked then readChunkedBody reader' out
                   else (case contentLength of
                           Some n \<Rightarrow> copyN reader' out n
                         | None \<Rightarrow> ioCopy reader' out)) of
               (err, reader'', out') \<Rightarrow> (err, out', src reader'')))"

section \<open>Streams made of lines\<close>

text \<open>
  The vocabulary of the statements below. A line is written without its line feed:
  \<open>withLF\<close> puts the lines of a list one after the other, each followed by \<open>LF\<close>, and
  \<open>trimLine l\<close> is what \<open>readAndCopyLine\<close> returns for the line \<open>l\<close> (a carriage
  return before the line feed belongs to \<open>l\<close> and is trimmed away). \<open>crlfLines\<close> ends
  each line with \<open>CR LF\<close>.
\<close>

definition trimLine :: "string \<Rightarrow> string" where
  "trimLine l = TrimRight (l @ [LF]) [CR, LF]"

definition withLF :: "string list \<Rightarrow> string" where
  "withLF ls = concat (map (\<lambda>l. l @ [LF]) ls)"

definition crlfLines :: "string list \<Rightarrow> string" where
  "crlfLines ls = concat (map (\<lambda>l. l @ [CR, LF]) ls)"

text \<open>
  A head is a status line \<open>st\<close>, header lines \<open>hs\<close> that are not blank, and a blank
  line \<open>bl\<close> (empty, or carriage returns only).
\<close>

definition headOf :: "string \<Rightarrow> string list \<Rightarrow> string \<Rightarrow> string" where
  "headOf st hs bl = st @ LF # withLF hs @ bl @ [LF]"

definition wellHead :: "string \<Rightarrow> string list \<Rightarrow> string \<Rightarrow> bool" where
  "wellHead st hs bl \<longleftrightarrow>
     LF \<notin> set st \<and> (\<forall>h \<in> set hs. LF \<notin> set h \<and> trimLine h \<noteq> []) \<and> LF \<notin> set bl \<and> trimLine bl = []"

text \<open>
  \<open>trackHeaders\<close> runs the body of the header loop over the trimmed header lines: the
  content length and the chunked flag the loop ends with, or its error.
\<close>

fun trackHeaders :: "string list \<Rightarrow> int option \<Rightarrow> bool \<Rightarrow> (int option \<times> bool) result" where
  "trackHeaders [] contentLength chunked = Ok (contentLength, chunked)"
| "trackHeaders (line # lines) contentLength chunked =
     (case trackContentLength line contentLength of
        Err e \<Rightarrow> Err e
      | Panic \<Rightarrow> Panic
      | Ok contentLength' \<Rightarrow>
          (case trackTransferEncoding line chunked of
             Err e \<Rightarrow> Err e
           | Panic \<Rightarrow> Panic
           | Ok chunked' \<Rightarrow> trackHeaders lines contentLength' chunked'))"

text \<open>
  The parts of a header line as the loop reads them: the two tests on the name, the
  value after the first colon, and the last coding of a list of transfer codings.
\<close>

definition isContentLength :: "string \<Rightarrow> bool" where
  "isContentLength line \<longleftrightarrow> HasPrefix (ToLower line) ''content-length:''"


definition headerValue :: "string \<Rightarrow> string" where
  "headerValue line = tl (dropWhile (\<lambda>c. c \<noteq> CHR '':'') line)"




definition chunkBytes :: "(string \<times> string) list \<Rightarrow> string" where
  "chunkBytes cs = concat (map (\<lambda>(sl, payload). sl @ LF # payload) cs)"

text \<open>
  The check of \<open>TestExtraction\<close> in the test suite, for one case: an error is
  accepted where one is expected, and without an error the response has to be the
  expected one. A panic fails the test.
  \<^verbatim>\<open>
  resp, err := extractor.ExtractResponse(strings.NewReader(tt.in), tt.isHEAD)
  if err != nil && !tt.expectedErr {
      t.Errorf("%d. Got unexpected error: %v", i, err)
  } else if err == nil && resp != tt.expectedOut {
      t.Errorf("Got unexpected extract. ...", resp, tt.expectedOut)
  }
  \<close>
\<close>

definition testPasses :: "bool \<Rightarrow> string \<Rightarrow> string \<Rightarrow> bool \<Rightarrow> bool" where
  "testPasses isHEADreq inp expectedOut expectedErr =
     (case ExtractResponse (stringsReader inp) isHEADreq of
        (Ok u, resp, c) \<Rightarrow> resp = expectedOut
      | (Err e, resp, c) \<Rightarrow> expectedErr
      | (Panic, resp, c) \<Rightarrow> False)"

section \<open>Properties\<close>

subsection \<open>Lines, copies and loops\<close>

lemma withLF_simps [simp]: "withLF [] = []" "withLF (l # ls) = l @ LF # withLF ls"
  by (simp_all add: withLF_def)

lemma chunkBytes_simps [simp]:
  "chunkBytes [] = []" "chunkBytes ((sl, payload) # cs) = sl @ LF # payload @ chunkBytes cs"
  by (simp_all add: chunkBytes_def)

lemma remaining_NewReader [simp]: "remaining (NewReader c) = pending c"
  by (simp add: remaining_def NewReader_def)

lemma src_NewReader [simp]: "src (NewReader c) = c"
  by (simp add: NewReader_def)


lemma readAndCopyLine_line:
  assumes "readAndCopyLine inp out = (res, inp', out')"
    and "remaining inp = l @ LF # rest" and "LF \<notin> set l"
  shows "res = Ok (TrimRight (l @ [LF]) [CR, LF])" "out' = out @ l @ [LF]" "remaining inp' = rest"
    "final (src inp') = final (src inp)"
  using readAndCopyLine_spec [OF assms(1)] assms(2,3)
  by (simp_all add: takeWhile_notin dropWhile_notin)

lemma copyN_negative: "n < 0 \<Longrightarrow> copyN inp out n = (Panic, inp, out)"
  by (simp add: copyN_def maxBufSize_def)


lemma headerLoop_lines:
  assumes "remaining inp = withLF hs @ bl @ LF # rest"
    and "\<forall>h \<in> set hs. LF \<notin> set h \<and> trimLine h \<noteq> []"
    and "LF \<notin> set bl" and "trimLine bl = []"
    and "trackHeaders (map trimLine hs) cl ch = Ok (cl', ch')"
    and "headerLoop inp out cl ch = (res, inp', out')"
  shows "res = Ok (cl', ch') \<and> out' = out @ withLF hs @ bl @ [LF] \<and> remaining inp' = rest
     \<and> final (src inp') = final (src inp)"
  using assms
proof (induction hs arbitrary: inp out cl ch)
  case Nil
  obtain r1 i1 o1 where rl: "readAndCopyLine inp out = (r1, i1, o1)" by (metis prod_cases3)
  from Nil.prems(1) have rem: "remaining inp = bl @ LF # rest" by simp
  note l = readAndCopyLine_line [OF rl rem Nil.prems(3)]
  from Nil.prems(6) rl l Nil.prems(4,5) show ?case
    by (simp add: headerLoop.simps [of inp] trimLine_def)
next
  case (Cons h hs)
  obtain r1 i1 o1 where rl: "readAndCopyLine inp out = (r1, i1, o1)" by (metis prod_cases3)
  from Cons.prems(1) have rem: "remaining inp = h @ LF # (withLF hs @ bl @ LF # rest)" by simp
  from Cons.prems(2) have h: "LF \<notin> set h" "trimLine h \<noteq> []"
    and hs: "\<forall>h \<in> set hs. LF \<notin> set h \<and> trimLine h \<noteq> []" by simp_all
  note l = readAndCopyLine_line [OF rl rem h(1)]
  from Cons.prems(5) obtain cl1 ch1 where
    t1: "trackContentLength (trimLine h) cl = Ok cl1"
    and t2: "trackTransferEncoding (trimLine h) ch = Ok ch1"
    and t3: "trackHeaders (map trimLine hs) cl1 ch1 = Ok (cl', ch')"
    by (auto split: result.splits)
  from Cons.prems(6) rl l h t1 t2
  have call: "headerLoop i1 o1 cl1 ch1 = (res, inp', out')"
    by (simp add: headerLoop.simps [of inp] trimLine_def)
  from Cons.IH [OF l(3) hs Cons.prems(3,4) t3 call] l show ?case by simp
qed

lemma readHead_lines:
  assumes "remaining inp = st @ LF # withLF hs @ bl @ LF # rest"
    and "LF \<notin> set st"
    and "\<forall>h \<in> set hs. LF \<notin> set h \<and> trimLine h \<noteq> []"
    and "LF \<notin> set bl" and "trimLine bl = []"
    and "trackHeaders (map trimLine hs) None False = Ok (cl, ch)"
    and "readHead inp out = (res, inp', out')"
  shows "res = Ok (cl, ch, hasNoBodyStatusCode (trimLine st))
     \<and> out' = out @ st @ LF # withLF hs @ bl @ [LF] \<and> remaining inp' = rest
     \<and> final (src inp') = final (src inp)"
proof -
  obtain r1 i1 o1 where rl: "readAndCopyLine inp out = (r1, i1, o1)" by (metis prod_cases3)
  note l = readAndCopyLine_line [OF rl assms(1,2)]
  obtain r2 i2 o2 where hl: "headerLoop i1 o1 None False = (r2, i2, o2)" by (metis prod_cases3)
  note h = headerLoop_lines [OF l(3) assms(3,4,5,6) hl]
  from assms(7) rl l hl h show ?thesis
    by (simp add: readHead_def trimLine_def)
qed

lemma readHead_wellHead:
  assumes "pending c = headOf st hs bl @ rest" and "wellHead st hs bl"
    and "trackHeaders (map trimLine hs) None False = Ok (cl, ch)"
    and "readHead (NewReader c) [] = (res, inp', out')"
  shows "res = Ok (cl, ch, hasNoBodyStatusCode (trimLine st))" "out' = headOf st hs bl"
    "remaining inp' = rest" "final (src inp') = final c"
proof -
  from assms(1) have rem: "remaining (NewReader c) = st @ LF # withLF hs @ bl @ LF # rest"
    by (simp add: headOf_def)
  from assms(2) have w: "LF \<notin> set st" "\<forall>h \<in> set hs. LF \<notin> set h \<and> trimLine h \<noteq> []"
    "LF \<notin> set bl" "trimLine bl = []" by (simp_all add: wellHead_def)
  from readHead_lines [OF rem w assms(3,4)]
  show "res = Ok (cl, ch, hasNoBodyStatusCode (trimLine st))" "out' = headOf st hs bl"
    "remaining inp' = rest" "final (src inp') = final c"
    by (simp_all add: headOf_def)
qed





subsection \<open>Header lines\<close>

lemma Split_nonempty: "Split s sep \<noteq> []"
  by (cases s) simp_all

lemma hd_Split: "hd (Split s sep) = takeWhile (\<lambda>c. c \<noteq> sep) s"
  by (induction s) simp_all

lemma headerLoop_error:
  assumes "remaining inp = withLF hs @ bad @ LF # rest"
    and "\<forall>h \<in> set hs. LF \<notin> set h \<and> trimLine h \<noteq> []"
    and "LF \<notin> set bad" and "trimLine bad \<noteq> []"
    and "trackHeaders (map trimLine hs) cl ch = Ok (cl', ch')"
    and "trackContentLength (trimLine bad) cl' = Err e"
    and "headerLoop inp out cl ch = (res, inp', out')"
  shows "res = Err e \<and> out' = out @ withLF hs @ bad @ [LF] \<and> remaining inp' = rest"
  using assms
proof (induction hs arbitrary: inp out cl ch)
  case Nil
  obtain r1 i1 o1 where rl: "readAndCopyLine inp out = (r1, i1, o1)" by (metis prod_cases3)
  from Nil.prems(1) have rem: "remaining inp = bad @ LF # rest" by simp
  note l = readAndCopyLine_line [OF rl rem Nil.prems(3)]
  from Nil.prems(5) have "cl' = cl" by simp
  with Nil.prems(7) rl l Nil.prems(4,6) show ?case
    by (simp add: headerLoop.simps [of inp] trimLine_def)
next
  case (Cons h hs)
  obtain r1 i1 o1 where rl: "readAndCopyLine inp out = (r1, i1, o1)" by (metis prod_cases3)
  from Cons.prems(1) have rem: "remaining inp = h @ LF # (withLF hs @ bad @ LF # rest)" by simp
  from Cons.prems(2) have h: "LF \<notin> set h" "trimLine h \<noteq> []"
    and hs: "\<forall>h \<in> set hs. LF \<notin> set h \<and> trimLine h \<noteq> []" by simp_all
  note l = readAndCopyLine_line [OF rl rem h(1)]
  from Cons.prems(5) obtain cl1 ch1 where
    t1: "trackContentLength (trimLine h) cl = Ok cl1"
    and t2: "trackTransferEncoding (trimLine h) ch = Ok ch1"
    and t3: "trackHeaders (map trimLine hs) cl1 ch1 = Ok (cl', ch')"
    by (auto split: result.splits)
  from Cons.prems(7) rl l h t1 t2
  have call: "headerLoop i1 o1 cl1 ch1 = (res, inp', out')"
    by (simp add: headerLoop.simps [of inp] trimLine_def)
  from Cons.IH [OF l(3) hs Cons.prems(3,4) t3 Cons.prems(6) call] l show ?case by simp
qed

lemma of_char_lowerByte:
  "(of_char (lowerByte c) :: nat) =
     (if 65 \<le> (of_char c :: nat) \<and> (of_char c :: nat) \<le> 90 then of_char c + 32 else of_char c)"
  by (simp add: lowerByte_def Let_def)

lemma char_eq_code: "c = d \<longleftrightarrow> (of_char c :: nat) = of_char d"
  by simp

lemma lowerByte_colon: "lowerByte c = CHR '':'' \<longleftrightarrow> c = CHR '':''"
  unfolding char_eq_code [of "lowerByte c"] char_eq_code [of c] of_char_lowerByte
  by (auto split: if_splits)

lemma HasPrefix_colon:
  assumes "HasPrefix (ToLower line) p" and "CHR '':'' \<in> set p"
  shows "CHR '':'' \<in> set line"
proof -
  from assms(1) have "map lowerByte (take (length p) line) = p"
    by (simp add: HasPrefix_def ToLower_def take_map)
  with assms(2) have "CHR '':'' \<in> lowerByte ` set (take (length p) line)"
    by (metis set_map)
  then obtain c where "c \<in> set (take (length p) line)" "lowerByte c = CHR '':''" by auto
  then show ?thesis using lowerByte_colon [of c] by (auto dest: in_set_takeD)
qed

lemma index_SplitN2:
  "CHR '':'' \<in> set line \<Longrightarrow> index (SplitN2 line CHR '':'') 1 = Ok (headerValue line)"
  by (simp add: index_def SplitN2_def headerValue_def)

lemma trackContentLength_eq:
  "trackContentLength line cl =
     (if isContentLength line then
        (if cl \<noteq> None then Err MultipleContentLength
         else (case ParseInt (TrimSpace (headerValue line)) 10 of
                 Inl e \<Rightarrow> Err (InvalidContentLength line e)
               | Inr i \<Rightarrow> Ok (Some i)))
      else Ok cl)"
proof (cases "isContentLength line")
  case True
  then have "CHR '':'' \<in> set line"
    unfolding isContentLength_def by (rule HasPrefix_colon) simp
  from index_SplitN2 [OF this] True show ?thesis
    by (simp add: trackContentLength_def isContentLength_def)
next
  case False
  then show ?thesis by (simp add: trackContentLength_def isContentLength_def)
qed




subsection \<open>The body after a Content-Length header\<close>



subsection \<open>The chunked body\<close>



subsection \<open>No body: HEAD requests and no-body status codes\<close>



subsection \<open>The status line\<close>



subsection \<open>The Content-Length header\<close>

text \<open>
  C5. A Content-Length header whose value is negative is accepted by the header scan:
  \<open>ParseInt\<close> reads a sign. With a HEAD request the call then returns no error; without
  one, \<open>copyN\<close> asks for a slice of negative length and the call panics. In neither
  case does the extraction fail with an error, as the claim asks.
\<close>

theorem negative_content_length:
  "trackContentLength ''Content-Length: -1'' None = Ok (Some (- 1))
   \<and> fst (ExtractResponse (stringsReader
          (crlfLines [''HTTP/1.1 200 OK'', ''Content-Length: -1'', ''''] @ ''body'')) False) = Panic
   \<and> fst (ExtractResponse (stringsReader
          (crlfLines [''HTTP/1.1 200 OK'', ''Content-Length: -1'', ''''] @ ''body'')) True) = Ok ()"
  by code_simp

subsection \<open>The Transfer-Encoding header\<close>

text \<open>
  C6. The name of the header is compared in lower case, its last coding is compared as
  it is written: \<open>Chunked\<close> is not \<open>chunked\<close>. A response that announces its coding as
  \<open>Chunked\<close> is not read as chunked; with no Content-Length it is copied to the end of
  the stream, the bytes after its last chunk included.
\<close>

theorem chunked_coding_case:
  "trackTransferEncoding ''Transfer-Encoding: gzip, chunked'' False = Ok True
   \<and> trackTransferEncoding ''transfer-encoding: Chunked'' False = Ok False
   \<and> trackTransferEncoding ''Transfer-Encoding: CHUNKED'' True = Ok False
   \<and> fst (snd (ExtractResponse (stringsReader
          (crlfLines [''HTTP/1.1 200 OK'', ''Transfer-Encoding: Chunked'', '''',
                      ''a'', ''All good.'' @ [LF], ''0'', ''''] @ ''foo'')) False))
       = crlfLines [''HTTP/1.1 200 OK'', ''Transfer-Encoding: Chunked'', '''',
                      ''a'', ''All good.'' @ [LF], ''0'', ''''] @ ''foo''"
  by code_simp

subsection \<open>A chunk size that does not parse\<close>



subsection \<open>The error classifier\<close>

lemma opErrno_range: "opErrno err3 \<in> {10, 11, 30, 31, 99}"
  by (cases err3) simp_all

lemma shapeErrno_range: "shapeErrno s \<in> {10, 11, 20, 30, 31, 99}"
proof (cases s)
  case (OpError err3)
  with opErrno_range [of err3] show ?thesis by auto
qed simp_all

text \<open>
  C8. The classifier is a function of the error's shape, defined on every shape, with
  values among 10, 11, 20, 30, 31 and 99. A deadline gives 31 whatever the rest of the
  shape is. Otherwise a \<open>*net.OpError\<close> is classified by the error it holds (DNS not
  found 10, DNS timeout 11, connection refused 30, another network timeout 31, anything
  else 99); otherwise a certificate verification error gives 20 and every other error
  gives 99.
\<close>

theorem toErrno_priority:
  "toErrno err \<in> {10, 11, 20, 30, 31, 99}
   \<and> (deadline err \<longrightarrow> toErrno err = 31)
   \<and> (\<not> deadline err \<longrightarrow>
        (shape err = OpError (DNSError True tmo) \<longrightarrow> toErrno err = 10)
        \<and> (shape err = OpError (DNSError False True) \<longrightarrow> toErrno err = 11)
        \<and> (shape err = OpError (DNSError False False) \<longrightarrow> toErrno err = 99)
        \<and> (shape err = OpError (SyscallError True) \<longrightarrow> toErrno err = 30)
        \<and> (shape err = OpError (SyscallError False) \<longrightarrow> toErrno err = 99)
        \<and> (shape err = OpError (NetError True) \<longrightarrow> toErrno err = 31)
        \<and> (shape err = OpError (NetError False) \<longrightarrow> toErrno err = 99)
        \<and> (shape err = OpError OtherCause \<longrightarrow> toErrno err = 99)
        \<and> (shape err = CertificateVerificationError \<longrightarrow> toErrno err = 20)
        \<and> (shape err = OtherError \<longrightarrow> toErrno err = 99))"
proof -
  have range: "toErrno err \<in> {10, 11, 20, 30, 31, 99}"
    using shapeErrno_range [of "shape err"] by (simp add: toErrno_def)
  then show ?thesis by (simp add: toErrno_def)
qed

theorem toErrno_priority_witness:
  "toErrno \<lparr>deadline = True, shape = OpError (DNSError True False)\<rparr> = 31
   \<and> toErrno \<lparr>deadline = False, shape = OpError (DNSError True True)\<rparr> = 10
   \<and> toErrno \<lparr>deadline = False, shape = OpError (DNSError False True)\<rparr> = 11
   \<and> toErrno \<lparr>deadline = False, shape = OpError (SyscallError True)\<rparr> = 30
   \<and> toErrno \<lparr>deadline = False, shape = CertificateVerificationError\<rparr> = 20
   \<and> toErrno \<lparr>deadline = False, shape = OtherError\<rparr> = 99"
proof -
  from toErrno_priority [of "\<lparr>deadline = True, shape = OpError (DNSError True False)\<rparr>" False]
  have 1: "toErrno \<lparr>deadline = True, shape = OpError (DNSError True False)\<rparr> = 31" by simp
  from toErrno_priority [of "\<lparr>deadline = False, shape = OpError (DNSError True True)\<rparr>" True]
  have 2: "toErrno \<lparr>deadline = False, shape = OpError (DNSError True True)\<rparr> = 10" by simp
  from toErrno_priority [of "\<lparr>deadline = False, shape = OpError (DNSError False True)\<rparr>" True]
  have 3: "toErrno \<lparr>deadline = False, shape = OpError (DNSError False True)\<rparr> = 11" by simp
  from toErrno_priority [of "\<lparr>deadline = False, shape = OpError (SyscallError True)\<rparr>" True]
  have 4: "toErrno \<lparr>deadline = False, shape = OpError (SyscallError True)\<rparr> = 30" by simp
  from toErrno_priority [of "\<lparr>deadline = False, shape = CertificateVerificationError\<rparr>" True]
  have 5: "toErrno \<lparr>deadline = False, shape = CertificateVerificationError\<rparr> = 20" by simp
  from toErrno_priority [of "\<lparr>deadline = False, shape = OtherError\<rparr>" True]
  have 6: "toErrno \<lparr>deadline = False, shape = OtherError\<rparr> = 99" by simp
  from 1 2 3 4 5 6 show ?thesis by simp
qed

subsection \<open>The instrumented stream\<close>

lemma timedReads_plainReads:
  "\<forall>c \<in> set calls. \<not> IsZero (snd c) \<Longrightarrow> timedReads rd t calls = (ress, t') \<Longrightarrow>
     plainReads rd (r t) (map fst calls) = (ress, r t')
     \<and> readAt t' = (if IsZero (readAt t) then firstByteAt ress (map snd calls) else readAt t)"
proof (induction calls arbitrary: t ress t')
  case Nil
  then show ?case by (auto simp: IsZero_def)
next
  case (Cons call calls)
  obtain p now where call: "call = (p, now)" by (cases call)
  obtain bs e r1 where rd: "rd (r t) p = ((bs, e), r1)" by (metis prod.exhaust)
  define t1 where
    "t1 = t\<lparr>r := r1, readAt := (if IsZero (readAt t) \<and> length bs > 0 then now else readAt t)\<rparr>"
  obtain ress1 t2 where rest: "timedReads rd t1 calls = (ress1, t2)" by (metis prod.exhaust)
  have step: "timedRead rd now t p = ((bs, e), t1)"
    by (simp add: timedRead_def rd t1_def)
  from Cons.prems(2) have res: "ress = (bs, e) # ress1" "t' = t2"
    by (simp_all add: call step rest)
  from Cons.prems(1) have nz: "\<forall>c \<in> set calls. \<not> IsZero (snd c)" and nz0: "\<not> IsZero now"
    by (simp_all add: call)
  from Cons.IH [OF nz rest]
  have ih: "plainReads rd (r t1) (map fst calls) = (ress1, r t2)"
    "readAt t2 = (if IsZero (readAt t1) then firstByteAt ress1 (map snd calls) else readAt t1)"
    by simp_all
  have r1: "r t1 = r1" by (simp add: t1_def)
  show ?case using ih nz0
    by (simp add: call res rd r1) (simp add: t1_def)
qed

text \<open>
  C9. For every sequence of \<open>Read\<close> calls on a \<open>timedReader\<close>, made while the clock is
  never at the zero instant, the results (bytes, their number, error) are those of the
  same calls on the wrapped reader, which is left in the same state; and \<open>readAt\<close>, when
  it starts at zero, ends as the clock's value at the first call that yielded a byte (or
  still zero when none did), and is unchanged when it was set before.
\<close>

theorem timedReader_transparent:
  assumes "\<forall>c \<in> set calls. \<not> IsZero (snd c)"
    and "timedReads rd t calls = (ress, t')"
  shows "plainReads rd (r t) (map fst calls) = (ress, r t')
     \<and> readAt t' = (if IsZero (readAt t) then firstByteAt ress (map snd calls) else readAt t)"
  using assms by (rule timedReads_plainReads)

text \<open>
  An instance: a first read that yields nothing at instant 5, then reads that yield
  bytes at instants 7 and 9. The time recorded is 7.
\<close>

theorem timedReader_transparent_witness:
  "plainReads scripted ['''', ''ab'', ''cde''] [4, 4, 2]
     = ([('''', None), (''ab'', None), (''cd'', None)], [])
   \<and> fst (timedReads scripted \<lparr>r = ['''', ''ab'', ''cde''], readAt = 0\<rparr> [(4, 5), (4, 7), (2, 9)])
     = [('''', None), (''ab'', None), (''cd'', None)]
   \<and> readAt (snd (timedReads scripted \<lparr>r = ['''', ''ab'', ''cde''], readAt = 0\<rparr> [(4, 5), (4, 7), (2, 9)]))
     = 7"
proof -
  have h1: "\<forall>c \<in> set [(4::nat, 5::instant), (4, 7), (2, 9)]. \<not> IsZero (snd c)"
    by (simp add: IsZero_def)
  have h2: "timedReads scripted \<lparr>r = ['''', ''ab'', ''cde''], readAt = 0\<rparr> [(4, 5), (4, 7), (2, 9)]
      = ([('''', None), (''ab'', None), (''cd'', None)], \<lparr>r = [], readAt = 7\<rparr>)"
    by code_simp
  from timedReader_transparent [OF h1 h2] h2
  show ?thesis by simp
qed

subsection \<open>The method test\<close>

lemma lowerByte_head:
  "lowerByte c = CHR ''h'' \<longleftrightarrow> c = CHR ''h'' \<or> c = CHR ''H''"
  "lowerByte c = CHR ''e'' \<longleftrightarrow> c = CHR ''e'' \<or> c = CHR ''E''"
  "lowerByte c = CHR ''a'' \<longleftrightarrow> c = CHR ''a'' \<or> c = CHR ''A''"
  "lowerByte c = CHR ''d'' \<longleftrightarrow> c = CHR ''d'' \<or> c = CHR ''D''"
  unfolding char_eq_code [of "lowerByte c"] char_eq_code [of c] of_char_lowerByte
  by (auto split: if_splits)

lemma isHEAD_iff:
  "isHEAD req \<longleftrightarrow>
     (\<exists>a b c d rest. req = a # b # c # d # rest
        \<and> (a = CHR ''h'' \<or> a = CHR ''H'') \<and> (b = CHR ''e'' \<or> b = CHR ''E'')
        \<and> (c = CHR ''a'' \<or> c = CHR ''A'') \<and> (d = CHR ''d'' \<or> d = CHR ''D''))"
proof (cases req)
  case Nil
  then show ?thesis by (simp add: isHEAD_def)
next
  case (Cons a r1)
  note c1 = this
  show ?thesis
  proof (cases r1)
    case Nil
    with c1 show ?thesis by (simp add: isHEAD_def)
  next
    case (Cons b r2)
    note c2 = this
    show ?thesis
    proof (cases r2)
      case Nil
      with c1 c2 show ?thesis by (simp add: isHEAD_def)
    next
      case (Cons c r3)
      note c3 = this
      show ?thesis
      proof (cases r3)
        case Nil
        with c1 c2 c3 show ?thesis by (simp add: isHEAD_def)
      next
        case (Cons d r4)
        with c1 c2 c3 show ?thesis
          by (simp add: isHEAD_def ToLower_def lowerByte_head)
      qed
    qed
  qed
qed

text \<open>
  C10. A request is a HEAD request exactly when it has at least four bytes and the first
  four are \<open>h\<close>, \<open>e\<close>, \<open>a\<close>, \<open>d\<close> in either case. Nothing after the fourth byte is
  looked at, so a request whose method only begins with these letters, such as
  \<open>HEADER\<close>, is a HEAD request too.
\<close>

theorem isHEAD_first_four_bytes:
  "(isHEAD req \<longleftrightarrow>
      (\<exists>a b c d rest. req = a # b # c # d # rest
         \<and> (a = CHR ''h'' \<or> a = CHR ''H'') \<and> (b = CHR ''e'' \<or> b = CHR ''E'')
         \<and> (c = CHR ''a'' \<or> c = CHR ''A'') \<and> (d = CHR ''d'' \<or> d = CHR ''D'')))
   \<and> isHEAD (a' # b' # c' # d' # rest') = isHEAD [a', b', c', d']
   \<and> isHEAD ''HEADER / HTTP/1.1''"
proof -
  have pre: "isHEAD (a' # b' # c' # d' # rest') = isHEAD [a', b', c', d']"
    by (simp add: isHEAD_def)
  have ex: "isHEAD ''HEADER / HTTP/1.1''"
    unfolding isHEAD_iff by simp
  from isHEAD_iff [of req] pre ex show ?thesis by blast
qed

subsection \<open>Further properties of the extractor\<close>

text \<open>
  X1. Connection-close framing. Take a stream that starts with a head whose header scan
  finds neither a Content-Length nor a chunked coding, and goes on with \<open>rest\<close>. When
  \<open>headRequest\<close> is false and the status line does not carry a no-body status code,
  the output is the whole stream, to its end; there is no error when the stream ends with
  \<open>EOF\<close>, and the stream's own error otherwise (a deadline that passes on a connection
  kept open).
\<close>

theorem close_framing:
  assumes "pending c = headOf st hs bl @ rest" and "wellHead st hs bl"
    and "trackHeaders (map trimLine hs) None False = Ok (None, False)"
    and "\<not> headRequest" and "\<not> hasNoBodyStatusCode (trimLine st)"
    and "ExtractResponse c headRequest = (err, out, c')"
  shows "err = (if final c = EOF then Ok () else Err (final c))
     \<and> out = headOf st hs bl @ rest \<and> pending c' = []"
proof -
  obtain r1 i1 o1 where rh: "readHead (NewReader c) [] = (r1, i1, o1)" by (metis prod_cases3)
  note h = readHead_wellHead [OF assms(1,2,3) rh]
  from assms(6) rh h assms(4,5) show ?thesis
    by (auto simp: ExtractResponse_def Let_def ioCopy_def)
qed
text \<open>An instance: the fourth case of the test suite.\<close>

theorem close_framing_witness:
  "fst (ExtractResponse (stringsReader
          (crlfLines [''HTTP/1.1 200 OK'', ''''] @ ''404 page not found'' @ [LF])) False) = Ok ()
   \<and> fst (snd (ExtractResponse (stringsReader
          (crlfLines [''HTTP/1.1 200 OK'', ''''] @ ''404 page not found'' @ [LF])) False))
       = crlfLines [''HTTP/1.1 200 OK'', ''''] @ ''404 page not found'' @ [LF]"
proof -
  define s where "s = crlfLines [''HTTP/1.1 200 OK'', ''''] @ ''404 page not found'' @ [LF]"
  define E where "E = ExtractResponse (stringsReader s) False"
  have h1: "pending (stringsReader s) = headOf (''HTTP/1.1 200 OK'' @ [CR]) [] [CR] @ (''404 page not found'' @ [LF])"
    unfolding s_def by code_simp
  have h2: "wellHead (''HTTP/1.1 200 OK'' @ [CR]) [] [CR]" by code_simp
  have h3: "trackHeaders (map trimLine []) None False = Ok (None, False)" by simp
  have h4: "\<not> False" by simp
  have h5: "\<not> hasNoBodyStatusCode (trimLine (''HTTP/1.1 200 OK'' @ [CR]))" by code_simp
  have h6: "ExtractResponse (stringsReader s) False = (fst E, fst (snd E), snd (snd E))"
    by (simp add: E_def)
  have o: "headOf (''HTTP/1.1 200 OK'' @ [CR]) [] [CR] @ (''404 page not found'' @ [LF]) = s"
    unfolding s_def by code_simp
  have f: "final (stringsReader s) = EOF" by (simp add: stringsReader_def)
  from close_framing [OF h1 h2 h3 h4 h5 h6] o f
  show ?thesis unfolding E_def s_def by simp
qed
text \<open>
  X2. The errors of the Content-Length header. Take a stream with a status line, header
  lines \<open>hs\<close> that are scanned without error, and then a Content-Length header line
  \<open>bad\<close>. When a Content-Length was found among \<open>hs\<close>, the extraction fails with the
  error of the multiple headers; when none was found and the value of \<open>bad\<close> does not
  parse, it fails with the error of the invalid value, which holds the line and the
  parser's error. In both cases the output is what was read up to and including \<open>bad\<close>,
  and this is so for a HEAD request too.
\<close>

theorem content_length_rejected:
  assumes "pending c = st @ LF # withLF hs @ bad @ LF # rest"
    and "LF \<notin> set st"
    and "\<forall>h \<in> set hs. LF \<notin> set h \<and> trimLine h \<noteq> []"
    and "LF \<notin> set bad"
    and "trackHeaders (map trimLine hs) None False = Ok (cl, ch)"
    and "isContentLength (trimLine bad)"
    and "cl \<noteq> None \<or> ParseInt (TrimSpace (headerValue (trimLine bad))) 10 = Inl ne"
    and "ExtractResponse c headRequest = (err, out, c')"
  shows "err = Err (if cl \<noteq> None then MultipleContentLength
                    else InvalidContentLength (trimLine bad) ne)
     \<and> out = st @ LF # withLF hs @ bad @ [LF]"
proof -
  define e where "e = (if cl \<noteq> None then MultipleContentLength
                    else InvalidContentLength (trimLine bad) ne)"
  from assms(6,7) have t: "trackContentLength (trimLine bad) cl = Err e"
    by (auto simp: trackContentLength_eq e_def)
  from assms(6) have ne: "trimLine bad \<noteq> []"
    by (auto simp: isContentLength_def HasPrefix_def ToLower_def)
  obtain r1 i1 o1 where rl: "readAndCopyLine (NewReader c) [] = (r1, i1, o1)" by (metis prod_cases3)
  from assms(1) have rem: "remaining (NewReader c) = st @ LF # (withLF hs @ bad @ LF # rest)" by simp
  note l = readAndCopyLine_line [OF rl rem assms(2)]
  obtain r2 i2 o2 where hl: "headerLoop i1 o1 None False = (r2, i2, o2)" by (metis prod_cases3)
  note h = headerLoop_error [OF l(3) assms(3,4) ne assms(5) t hl]
  from assms(8) rl l hl h show ?thesis
    by (simp add: ExtractResponse_def Let_def readHead_def e_def)
qed
text \<open>
  An instance: a second Content-Length header, written in lower case, and a value that
  is not a number.
\<close>

theorem content_length_rejected_witness:
  "fst (ExtractResponse (stringsReader
          (crlfLines [''HTTP/1.1 200 OK'', ''Content-Length: 3'', ''content-length: 3'', ''''] @ ''abc'')) False)
     = Err MultipleContentLength
   \<and> fst (snd (ExtractResponse (stringsReader
          (crlfLines [''HTTP/1.1 200 OK'', ''Content-Length: 3'', ''content-length: 3'', ''''] @ ''abc'')) False))
     = crlfLines [''HTTP/1.1 200 OK'', ''Content-Length: 3'', ''content-length: 3'']
   \<and> fst (ExtractResponse (stringsReader
          (crlfLines [''HTTP/1.1 200 OK'', ''Content-Length: 3 bytes'', ''''] @ ''abc'')) True)
     = Err (InvalidContentLength ''Content-Length: 3 bytes'' ErrSyntax)"
proof -
  define s where "s = crlfLines [''HTTP/1.1 200 OK'', ''Content-Length: 3'', ''content-length: 3'', ''''] @ ''abc''"
  define E where "E = ExtractResponse (stringsReader s) False"
  define s2 where "s2 = crlfLines [''HTTP/1.1 200 OK'', ''Content-Length: 3 bytes'', ''''] @ ''abc''"
  define E2 where "E2 = ExtractResponse (stringsReader s2) True"
  have h1: "pending (stringsReader s) = (''HTTP/1.1 200 OK'' @ [CR]) @ LF # withLF [''Content-Length: 3'' @ [CR]]
      @ (''content-length: 3'' @ [CR]) @ LF # (crlfLines [''''] @ ''abc'')"
    unfolding s_def by code_simp
  have h2: "LF \<notin> set (''HTTP/1.1 200 OK'' @ [CR])" by code_simp
  have h3: "\<forall>h \<in> set [''Content-Length: 3'' @ [CR]]. LF \<notin> set h \<and> trimLine h \<noteq> []" by code_simp
  have h4: "LF \<notin> set (''content-length: 3'' @ [CR])" by code_simp
  have h5: "trackHeaders (map trimLine [''Content-Length: 3'' @ [CR]]) None False = Ok (Some 3, False)"
    by code_simp
  have h6: "isContentLength (trimLine (''content-length: 3'' @ [CR]))" by code_simp
  have h7: "Some (3::int) \<noteq> None \<or> ParseInt (TrimSpace (headerValue (trimLine (''content-length: 3'' @ [CR])))) 10 = Inl ErrSyntax"
    by simp
  have h8: "ExtractResponse (stringsReader s) False = (fst E, fst (snd E), snd (snd E))"
    by (simp add: E_def)
  have o: "(''HTTP/1.1 200 OK'' @ [CR]) @ LF # withLF [''Content-Length: 3'' @ [CR]]
      @ (''content-length: 3'' @ [CR]) @ [LF]
      = crlfLines [''HTTP/1.1 200 OK'', ''Content-Length: 3'', ''content-length: 3'']"
    by code_simp
  note a = content_length_rejected [OF h1 h2 h3 h4 h5 h6 h7 h8]
  have g1: "pending (stringsReader s2) = (''HTTP/1.1 200 OK'' @ [CR]) @ LF # withLF []
      @ (''Content-Length: 3 bytes'' @ [CR]) @ LF # (crlfLines [''''] @ ''abc'')"
    unfolding s2_def by code_simp
  have g3: "\<forall>h \<in> set ([] :: string list). LF \<notin> set h \<and> trimLine h \<noteq> []" by simp
  have g4: "LF \<notin> set (''Content-Length: 3 bytes'' @ [CR])" by code_simp
  have g5: "trackHeaders (map trimLine []) None False = Ok (None, False)" by simp
  have g6: "isContentLength (trimLine (''Content-Length: 3 bytes'' @ [CR]))" by code_simp
  have g7: "(None :: int option) \<noteq> None
      \<or> ParseInt (TrimSpace (headerValue (trimLine (''Content-Length: 3 bytes'' @ [CR])))) 10 = Inl ErrSyntax"
    by code_simp
  have g8: "ExtractResponse (stringsReader s2) True = (fst E2, fst (snd E2), snd (snd E2))"
    by (simp add: E2_def)
  have t: "trimLine (''Content-Length: 3 bytes'' @ [CR]) = ''Content-Length: 3 bytes''" by code_simp
  note b = content_length_rejected [OF g1 h2 g3 g4 g5 g6 g7 g8]
  from a b o t show ?thesis unfolding E_def E2_def s_def s2_def by simp
qed
text \<open>
  X3. The ten cases of the test suite pass. In the ninth case the chunk size 1 does not
  match the payload, and the extractor answers with an error, as the test expects.
\<close>

theorem TestExtraction:
  "testPasses False
     (crlfLines [''HTTP/1.1 404 Not Found'', ''Content-Type: text/plain; charset=utf-8'',
                 ''X-Content-Type-Options: nosniff'', ''Date: Sun, 17 Dec 2023 12:05:16 GMT'',
                 ''Content-Length: 19'', ''''] @ ''404 page not found'' @ [LF] @ '' foo'')
     (crlfLines [''HTTP/1.1 404 Not Found'', ''Content-Type: text/plain; charset=utf-8'',
                 ''X-Content-Type-Options: nosniff'', ''Date: Sun, 17 Dec 2023 12:05:16 GMT'',
                 ''Content-Length: 19'', ''''] @ ''404 page not found'' @ [LF])
     False
   \<and> testPasses False
     (crlfLines [''HTTP/1.1 200 OK'', ''Content-Type: text/plain'', ''Content-Length: 10'', '''']
        @ ''All good.'' @ [LF])
     (crlfLines [''HTTP/1.1 200 OK'', ''Content-Type: text/plain'', ''Content-Length: 10'', '''']
        @ ''All good.'' @ [LF])
     False
   \<and> testPasses True
     (crlfLines [''HTTP/1.1 200 OK'', ''Content-Length: 10'', ''''] @ ''All good.'' @ [LF])
     (crlfLines [''HTTP/1.1 200 OK'', ''Content-Length: 10'', ''''])
     False
   \<and> testPasses False
     (crlfLines [''HTTP/1.1 200 OK'', ''''] @ ''404 page not found'' @ [LF])
     (crlfLines [''HTTP/1.1 200 OK'', ''''] @ ''404 page not found'' @ [LF])
     False
   \<and> testPasses False
     (crlfLines [''HTTP/1.1 200 OK'', ''Transfer-Encoding: chunked'', '''',
                 ''a'', ''All good.'' @ [LF], ''0'', ''''])
     (crlfLines [''HTTP/1.1 200 OK'', ''Transfer-Encoding: chunked'', '''',
                 ''a'', ''All good.'' @ [LF], ''0'', ''''])
     False
   \<and> testPasses False
     (crlfLines [''HTTP/1.1 200 OK'', ''Transfer-Encoding: chunked'', '''',
                 ''a'', ''All good.'' @ [LF], ''4'', ''foo'' @ [LF], ''0'', ''''])
     (crlfLines [''HTTP/1.1 200 OK'', ''Transfer-Encoding: chunked'', '''',
                 ''a'', ''All good.'' @ [LF], ''4'', ''foo'' @ [LF], ''0'', ''''])
     False
   \<and> testPasses False
     (crlfLines [''HTTP/1.1 200 OK'', ''Transfer-Encoding: chunked'', '''',
                 ''a'', ''All good.'' @ [LF], ''0'', ''Trailer: foo'', ''''])
     (crlfLines [''HTTP/1.1 200 OK'', ''Transfer-Encoding: chunked'', '''',
                 ''a'', ''All good.'' @ [LF], ''0'', ''Trailer: foo'', ''''])
     False
   \<and> testPasses False
     (crlfLines [''HTTP/1.1 200 OK'', ''Transfer-Encoding: chunked'', '''',
                 ''a'', ''All good.'' @ [LF], ''0'', ''''] @ ''foo'')
     (crlfLines [''HTTP/1.1 200 OK'', ''Transfer-Encoding: chunked'', '''',
                 ''a'', ''All good.'' @ [LF], ''0'', ''''])
     False
   \<and> testPasses False
     (crlfLines [''HTTP/1.1 200 OK'', ''Transfer-Encoding: chunked'', '''',
                 ''1'', ''All good.'' @ [LF], ''0'', ''''])
     []
     True
   \<and> testPasses False
     (crlfLines [''HTTP/1.1 200 OK'', ''Content-Length: 1'', ''Transfer-Encoding: chunked'', '''',
                 ''a'', ''All good.'' @ [LF], ''0'', ''''])
     (crlfLines [''HTTP/1.1 200 OK'', ''Content-Length: 1'', ''Transfer-Encoding: chunked'', '''',
                 ''a'', ''All good.'' @ [LF], ''0'', ''''])
     False"
  by code_simp

end
